theory Spec2Isabelle
  imports
    Complex_Main
    "HOL-Library.Extended_Nat"
    "HOL-Library.Char_ord"
    "HOL-Library.List_Lexorder"
begin

section \<open>Strings\<close>

text \<open>
  A Python \<open>str\<close> is modelled as a \<open>string\<close>, read as the list of its code points; the
  model covers the code points below 256, which is what a \<open>char\<close> holds. On that range
  \<open>str.lower\<close> maps \<open>A\<close>..\<open>Z\<close> and the Latin-1 capitals \<open>0xC0\<close>..\<open>0xDE\<close> (without the
  multiplication sign \<open>0xD7\<close>) to the code point 32 above, and nothing else.
\<close>

definition lower_char :: "char \<Rightarrow> char" where
  "lower_char c =
     (if (CHR ''A'' \<le> c \<and> c \<le> CHR ''Z'') \<or> (CHR 0xC0 \<le> c \<and> c \<le> CHR 0xDE \<and> c \<noteq> CHR 0xD7)
      then char_of (of_char c + (32::nat)) else c)"

definition lower :: "string \<Rightarrow> string" where
  "lower s = map lower_char s"

text \<open>The character class \<open>[a-z0-9]\<close> of the regular expression in \<open>normalize_name\<close>.\<close>

definition is_key_char :: "char \<Rightarrow> bool" where
  "is_key_char c \<longleftrightarrow> (CHR ''a'' \<le> c \<and> c \<le> CHR ''z'') \<or> (CHR ''0'' \<le> c \<and> c \<le> CHR ''9'')"

text \<open>
  \<open>normalize_name\<close>: the empty name gives the empty key; otherwise the name is lower-cased
  and \<open>re.sub(r"[^a-z0-9]", "", ...)\<close> deletes every character outside the class.
\<close>

definition normalize_name :: "string \<Rightarrow> string" where
  "normalize_name name = (if name = [] then [] else filter is_key_char (lower name))"

section \<open>Edit distance\<close>

text \<open>
  The body of the inner loop of \<open>levenshtein_distance\<close>: one cell is appended to
  \<open>current_row\<close>. Both rows are read by index, as the source does.
\<close>

definition inner_step :: "nat list \<Rightarrow> char \<Rightarrow> nat list \<Rightarrow> nat \<times> char \<Rightarrow> nat list" where
  "inner_step previous_row c1 current_row jc =
     (case jc of (j, c2) \<Rightarrow>
        let insertions = previous_row ! (j + 1) + 1;
            deletions = current_row ! j + 1;
            substitutions = previous_row ! j + (if c1 \<noteq> c2 then 1 else 0)
        in current_row @ [min insertions (min deletions substitutions)])"

text \<open>The body of the outer loop: the row for character \<open>c1\<close> at position \<open>i\<close>.\<close>

definition outer_step :: "string \<Rightarrow> nat list \<Rightarrow> nat \<times> char \<Rightarrow> nat list" where
  "outer_step s2 previous_row ic =
     (case ic of (i, c1) \<Rightarrow> foldl (inner_step previous_row c1) [i + 1] (List.enumerate 0 s2))"

function levenshtein_distance :: "string \<Rightarrow> string \<Rightarrow> nat" where
  "levenshtein_distance s1 s2 =
     (if length s1 < length s2 then levenshtein_distance s2 s1
      else if length s2 = 0 then length s1
      else last (foldl (outer_step s2) [0..<length s2 + 1] (List.enumerate 0 s1)))"
  by pat_completeness auto
termination
  by (relation "measure (\<lambda>(s1, s2). if length s1 < length s2 then 1 else 0)") auto

declare levenshtein_distance.simps [simp del]

text \<open>
  The textbook recurrence of the edit distance, on lists read from the front. It is the
  yardstick the two-row loop is compared with: the cell \<open>j\<close> of the row for the prefix of
  length \<open>i\<close> holds the value of the recurrence on the two reversed prefixes.
\<close>

fun edit_rec :: "string \<Rightarrow> string \<Rightarrow> nat" where
  "edit_rec [] ys = length ys"
| "edit_rec (x # xs) [] = Suc (length xs)"
| "edit_rec (x # xs) (y # ys) =
     min (edit_rec xs (y # ys) + 1)
         (min (edit_rec (x # xs) ys + 1) (edit_rec xs ys + (if x \<noteq> y then 1 else 0)))"

section \<open>Dictionaries\<close>

text \<open>
  A Python \<open>dict\<close> keeps its keys in insertion order and holds each key once; it is an
  association list here. \<open>d[k] = v\<close> replaces the value of a key already there, in
  place, and appends a new key at the end; \<open>k in d\<close> and \<open>d[k]\<close> are \<open>map_of d k\<close>.
\<close>

fun dict_set :: "('k \<times> 'v) list \<Rightarrow> 'k \<Rightarrow> 'v \<Rightarrow> ('k \<times> 'v) list" where
  "dict_set [] k v = [(k, v)]"
| "dict_set ((k', v') # d) k v =
     (if k' = k then (k, v) # d else (k', v') # dict_set d k v)"

section \<open>Text helpers of the transformer\<close>

text \<open>
  \<open>str.title\<close>: a cased character that follows an uncased one (or starts the string) is
  upper-cased, a character that follows a cased one is lower-cased. The model is exact on
  the strings that hold none of the code points \<open>0xB5\<close>, \<open>0xDF\<close> and \<open>0xFF\<close>, whose
  title-case forms lie above 255; it leaves these three unchanged.
\<close>

definition is_cased :: "char \<Rightarrow> bool" where
  "is_cased c \<longleftrightarrow>
     (CHR ''A'' \<le> c \<and> c \<le> CHR ''Z'') \<or> (CHR ''a'' \<le> c \<and> c \<le> CHR ''z'')
     \<or> c = CHR 0xAA \<or> c = CHR 0xB5 \<or> c = CHR 0xBA
     \<or> (CHR 0xC0 \<le> c \<and> c \<noteq> CHR 0xD7 \<and> c \<noteq> CHR 0xF7)"

definition upper_char :: "char \<Rightarrow> char" where
  "upper_char c =
     (if (CHR ''a'' \<le> c \<and> c \<le> CHR ''z'') \<or> (CHR 0xE0 \<le> c \<and> c \<le> CHR 0xFE \<and> c \<noteq> CHR 0xF7)
      then char_of (of_char c - (32::nat)) else c)"

fun title_from :: "bool \<Rightarrow> string \<Rightarrow> string" where
  "title_from previous_is_cased [] = []"
| "title_from previous_is_cased (c # cs) =
     (if previous_is_cased then lower_char c else upper_char c) # title_from (is_cased c) cs"

definition title :: "string \<Rightarrow> string" where
  "title s = title_from False s"

definition replace_char :: "char \<Rightarrow> char \<Rightarrow> string \<Rightarrow> string" where
  "replace_char old new s = map (\<lambda>c. if c = old then new else c) s"

text \<open>\<open>id_to_display_name\<close>: the name of the table, else the id in title case.\<close>

definition id_to_display_name :: "string \<Rightarrow> (string \<times> string) list \<Rightarrow> string" where
  "id_to_display_name item_id id_to_name_map =
     (case map_of id_to_name_map item_id of
        Some n \<Rightarrow> n
      | None \<Rightarrow> title (replace_char (CHR ''_'') (CHR '' '') item_id))"

text \<open>
  \<open>str.split(",")\<close> and \<open>str.strip()\<close>. The white space of \<open>strip\<close> below code point 256
  is \<open>0x09\<close>..\<open>0x0D\<close>, \<open>0x1C\<close>..\<open>0x20\<close>, \<open>0x85\<close> and \<open>0xA0\<close>.
\<close>

fun split_on :: "char \<Rightarrow> string \<Rightarrow> string list" where
  "split_on sep [] = [[]]"
| "split_on sep (c # cs) =
     (if c = sep then [] # split_on sep cs
      else (case split_on sep cs of [] \<Rightarrow> [[c]] | w # ws \<Rightarrow> (c # w) # ws))"

definition is_space :: "char \<Rightarrow> bool" where
  "is_space c \<longleftrightarrow>
     (CHR 0x09 \<le> c \<and> c \<le> CHR 0x0D) \<or> (CHR 0x1C \<le> c \<and> c \<le> CHR 0x20)
     \<or> c = CHR 0x85 \<or> c = CHR 0xA0"

definition strip :: "string \<Rightarrow> string" where
  "strip s = rev (dropWhile is_space (rev (dropWhile is_space s)))"

definition parse_found_in :: "string \<Rightarrow> string list" where
  "parse_found_in found_in_str =
     (if found_in_str = [] then []
      else map strip (filter (\<lambda>loc. strip loc \<noteq> []) (split_on (CHR '','') found_in_str)))"

section \<open>Records of the two catalogs\<close>

text \<open>
  A localized text of the external catalog is an object from language codes to strings;
  the code also accepts a plain string in its place (\<open>str\<close> of a string is the string).
\<close>

datatype loc_text = Localized "(string \<times> string) list" | Plain string

text \<open>
  A raw record is the JSON object of one external item. A key that may be missing is an
  \<open>option\<close>; the default of each \<open>.get\<close> is written where the code reads the key.
\<close>

record raw_record =
  rt_name :: "loc_text option"
  rt_description :: "loc_text option"
  rt_type :: "string option"
  rt_rarity :: "string option"
  rt_value :: "rat option"
  rt_weightKg :: "rat option"
  rt_stackSize :: "int option"
  rt_recyclesInto :: "(string \<times> int) list option"
  rt_foundIn :: "string option"
  rt_imageFilename :: "string option"

text \<open>
  An existing item is a JSON object read from the local catalog. The merge reads seven of
  its keys, each of which may be missing; \<open>recycleValuePercent\<close> may also be there and
  hold \<open>null\<close>. The keys the merge never reads are kept by name only: they matter to the
  truth value of the object, which is false for the empty object.
\<close>

record existing_item =
  ex_name :: "string option"
  ex_projectUses :: "string list option"
  ex_workshopUses :: "string list option"
  ex_keepForQuests :: "bool option"
  ex_questUses :: "string list option"
  ex_recommendation :: "string option"
  ex_recycleValuePercent :: "rat option option"
  ex_other_keys :: "string list"

definition dict_nonempty :: "existing_item \<Rightarrow> bool" where
  "dict_nonempty e \<longleftrightarrow>
     ex_name e \<noteq> None \<or> ex_projectUses e \<noteq> None \<or> ex_workshopUses e \<noteq> None
     \<or> ex_keepForQuests e \<noteq> None \<or> ex_questUses e \<noteq> None \<or> ex_recommendation e \<noteq> None
     \<or> ex_recycleValuePercent e \<noteq> None \<or> ex_other_keys e \<noteq> []"

text \<open>The truth value of \<open>existing_item\<close> in \<open>if existing_item:\<close>, where it may be \<open>None\<close>.\<close>

definition truthy :: "existing_item option \<Rightarrow> bool" where
  "truthy existing = (case existing of None \<Rightarrow> False | Some e \<Rightarrow> dict_nonempty e)"

text \<open>
  The record the transformer builds: the eleven keys of the base item, then the five
  curator-owned keys added by one of the two branches.
\<close>

record base_item =
  name :: string
  category :: string
  rarity :: string
  "value" :: rat
  description :: string
  weight :: rat
  stackSize :: int
  recycleValuePercent :: "rat option"
  recycleOutputs :: "(string \<times> int) list option"
  foundIn :: "string list option"
  imageUrl :: "string option"

record local_record = base_item +
  projectUses :: "string list"
  workshopUses :: "string list"
  keepForQuests :: bool
  questUses :: "string list"
  recommendation :: string

section \<open>The transformer\<close>

definition CATEGORY_MAP :: "(string \<times> string) list" where
  "CATEGORY_MAP =
     [(''Basic Material'', ''Material''),
      (''Refined Material'', ''Component''),
      (''Consumable'', ''Consumable''),
      (''Quick Use'', ''Consumable''),
      (''Tool'', ''Material''),
      (''Weapon'', ''Weapon''),
      (''Attachment'', ''Attachment''),
      (''Key'', ''Quest''),
      (''Quest Item'', ''Quest''),
      (''Armor'', ''Armor''),
      (''Armor Plate'', ''Armor''),
      (''Helmet Plate'', ''Armor''),
      (''Blueprint'', ''Blueprint''),
      (''Color'', ''Cosmetic''),
      (''Valuable'', ''Valuable''),
      (''Ammo'', ''Ammo''),
      (''Grenade'', ''Consumable''),
      (''Trap'', ''Consumable''),
      (''Food'', ''Consumable''),
      (''Drink'', ''Consumable'')]"

text \<open>
  \<open>obj.get("en", "") if isinstance(obj, dict) else str(obj)\<close>, where \<open>obj\<close> is the value
  of the key or \<open>{}\<close> when the key is missing.
\<close>

definition english :: "loc_text option \<Rightarrow> string" where
  "english obj =
     (case obj of
        None \<Rightarrow> []
      | Some (Localized d) \<Rightarrow> (case map_of d ''en'' of None \<Rightarrow> [] | Some s \<Rightarrow> s)
      | Some (Plain s) \<Rightarrow> s)"

definition auto_recommend :: "raw_record \<Rightarrow> string" where
  "auto_recommend item =
     (let item_type = (case rt_type item of None \<Rightarrow> [] | Some t \<Rightarrow> t);
          rarity = (case rt_rarity item of None \<Rightarrow> ''Common'' | Some r \<Rightarrow> r)
      in if item_type \<in> set [''Key'', ''Quest Item''] then ''Keep''
         else if item_type = ''Valuable'' then ''Sell''
         else if rarity \<in> set [''Rare'', ''Epic'', ''Legendary''] then ''Keep''
         else if item_type \<in> set [''Quick Use'', ''Consumable''] then ''Keep''
         else
           (let recycles_into = (case rt_recyclesInto item of None \<Rightarrow> [] | Some d \<Rightarrow> d)
            in if recycles_into \<noteq> [] \<and> length recycles_into > 0 then ''Recycle''
               else if item_type \<in> set [''Weapon'', ''Armor'', ''Armor Plate'', ''Helmet Plate'',
                                        ''Attachment''] then ''Keep''
               else ''Either''))"

text \<open>The body of the loop over \<open>recycles_into.items()\<close>.\<close>

definition recycle_step ::
  "(string \<times> string) list \<Rightarrow> (string \<times> int) list \<Rightarrow> string \<times> int \<Rightarrow> (string \<times> int) list" where
  "recycle_step id_to_name_map recycle_outputs entry =
     (case entry of (item_id, count) \<Rightarrow>
        if count > 0
        then dict_set recycle_outputs (id_to_display_name item_id id_to_name_map) count
        else recycle_outputs)"

definition transform_item ::
  "raw_record \<Rightarrow> (string \<times> string) list \<Rightarrow> existing_item option \<Rightarrow> local_record" where
  "transform_item rt_item id_to_name_map existing =
     (let nm = english (rt_name rt_item);
          descr = english (rt_description rt_item);
          rt_type = (case rt_type rt_item of None \<Rightarrow> ''Material'' | Some t \<Rightarrow> t);
          categ = (case map_of CATEGORY_MAP rt_type of None \<Rightarrow> ''Material'' | Some c \<Rightarrow> c);
          recycles_into = (case rt_recyclesInto rt_item of None \<Rightarrow> [] | Some d \<Rightarrow> d);
          recycle_outputs =
            (if recycles_into \<noteq> [] \<and> length recycles_into > 0
             then (let outputs = foldl (recycle_step id_to_name_map) [] recycles_into
                   in if outputs = [] then None else Some outputs)
             else None);
          found_in = parse_found_in (case rt_foundIn rt_item of None \<Rightarrow> [] | Some s \<Rightarrow> s);
          item =
            \<lparr> name = nm,
              category = categ,
              rarity = (case rt_rarity rt_item of None \<Rightarrow> ''Common'' | Some r \<Rightarrow> r),
              value = (case rt_value rt_item of None \<Rightarrow> 0 | Some v \<Rightarrow> v),
              description = descr,
              weight = (case rt_weightKg rt_item of None \<Rightarrow> 0.1 | Some w \<Rightarrow> w),
              stackSize = (case rt_stackSize rt_item of None \<Rightarrow> 1 | Some n \<Rightarrow> n),
              recycleValuePercent = None,
              recycleOutputs = recycle_outputs,
              foundIn = (if found_in \<noteq> [] then Some found_in else None),
              imageUrl = rt_imageFilename rt_item \<rparr>;
          generated =
            \<lparr> projectUses = [], workshopUses = [], keepForQuests = False,
              questUses = [], recommendation = auto_recommend rt_item \<rparr>
      in case existing of
           Some e \<Rightarrow>
             if dict_nonempty e
             then base_item.extend
                    (case ex_recycleValuePercent e of
                       Some (Some p) \<Rightarrow> item\<lparr>recycleValuePercent := Some p\<rparr>
                     | _ \<Rightarrow> item)
                    \<lparr> projectUses = (case ex_projectUses e of None \<Rightarrow> [] | Some u \<Rightarrow> u),
                      workshopUses = (case ex_workshopUses e of None \<Rightarrow> [] | Some u \<Rightarrow> u),
                      keepForQuests = (case ex_keepForQuests e of None \<Rightarrow> False | Some b \<Rightarrow> b),
                      questUses = (case ex_questUses e of None \<Rightarrow> [] | Some u \<Rightarrow> u),
                      recommendation =
                        (case ex_recommendation e of None \<Rightarrow> ''Either'' | Some r \<Rightarrow> r) \<rparr>
             else base_item.extend item generated
         | None \<Rightarrow> base_item.extend item generated)"

section \<open>The matcher\<close>

text \<open>
  \<open>max(3, len(normalized) * 0.2)\<close>. The product is a float in the source and an exact
  rational here; the bound is only ever compared with an integer distance, and for that
  comparison the two agree (the float product of \<open>n\<close> and \<open>0.2\<close> is never below \<open>n / 5\<close>
  rounded down, and never reaches the next integer).
\<close>

definition max_distance :: "string \<Rightarrow> rat" where
  "max_distance normalized = max 3 (of_nat (length normalized) * 0.2)"

text \<open>
  The body of the loop of the fuzzy fallback, on the pair \<open>(best_match, best_distance)\<close>;
  \<open>best_distance\<close> starts at \<open>float("inf")\<close>, the \<open>\<infinity>\<close> of \<open>enat\<close>.
\<close>

definition fuzzy_step :: "string \<Rightarrow> 'a option \<times> enat \<Rightarrow> string \<times> 'a \<Rightarrow> 'a option \<times> enat" where
  "fuzzy_step normalized best entry =
     (case best of (best_match, best_distance) \<Rightarrow>
      case entry of (existing_name, item) \<Rightarrow>
        let distance = levenshtein_distance normalized existing_name
        in if enat distance < best_distance \<and> of_nat distance \<le> max_distance normalized
           then (Some item, enat distance)
           else (best_match, best_distance))"

definition find_existing_item :: "string \<Rightarrow> (string \<times> 'a) list \<Rightarrow> 'a option" where
  "find_existing_item nm existing_items_by_name =
     (let normalized = normalize_name nm
      in case map_of existing_items_by_name normalized of
           Some item \<Rightarrow> Some item
         | None \<Rightarrow> fst (foldl (fuzzy_step normalized) (None, \<infinity>) existing_items_by_name))"

text \<open>
  What the claims about the fallback speak of: position \<open>i\<close> of the index holds the
  first entry of least distance among the entries within the bound.
\<close>

definition within_bound :: "string \<Rightarrow> string \<Rightarrow> bool" where
  "within_bound normalized k \<longleftrightarrow>
     of_nat (levenshtein_distance normalized k) \<le> max_distance normalized"

definition first_best :: "string \<Rightarrow> (string \<times> 'a) list \<Rightarrow> nat \<Rightarrow> bool" where
  "first_best normalized index i \<longleftrightarrow>
     i < length index
     \<and> within_bound normalized (fst (index ! i))
     \<and> (\<forall>k \<in> set (map fst index). within_bound normalized k \<longrightarrow>
           levenshtein_distance normalized (fst (index ! i)) \<le> levenshtein_distance normalized k)
     \<and> (\<forall>k \<in> set (map fst (take i index)). within_bound normalized k \<longrightarrow>
           levenshtein_distance normalized (fst (index ! i)) < levenshtein_distance normalized k)"

section \<open>The orchestrator\<close>

text \<open>
  The computation of \<open>main\<close> between the download and the write: the external items come
  as the dictionary from id to raw record, the local catalog as the list read from the
  file. The three loops follow; each is a fold of its body.
\<close>

record stats =
  updated :: nat
  added :: nat
  skipped :: nat

definition name_map_step ::
  "(string \<times> string) list \<Rightarrow> string \<times> raw_record \<Rightarrow> (string \<times> string) list" where
  "name_map_step id_to_name_map entry =
     (case entry of (item_id, item) \<Rightarrow>
        let nm = english (rt_name item)
        in if nm \<noteq> [] then dict_set id_to_name_map item_id nm else id_to_name_map)"

definition index_step ::
  "(string \<times> existing_item) list \<Rightarrow> existing_item \<Rightarrow> (string \<times> existing_item) list" where
  "index_step existing_by_name item =
     (let norm_name = normalize_name (case ex_name item of None \<Rightarrow> [] | Some n \<Rightarrow> n)
      in if norm_name \<noteq> [] then dict_set existing_by_name norm_name item
         else existing_by_name)"

definition merge_step ::
  "(string \<times> string) list \<Rightarrow> (string \<times> existing_item) list \<Rightarrow>
   local_record list \<times> stats \<Rightarrow> string \<times> raw_record \<Rightarrow> local_record list \<times> stats" where
  "merge_step id_to_name_map existing_by_name state entry =
     (case state of (merged_items, st) \<Rightarrow>
      case entry of (item_id, rt_item) \<Rightarrow>
        let nm = english (rt_name rt_item)
        in if nm = [] then (merged_items, st\<lparr>skipped := skipped st + 1\<rparr>)
           else
             (let existing = find_existing_item nm existing_by_name;
                  merged = transform_item rt_item id_to_name_map existing
              in (merged_items @ [merged],
                  if truthy existing then st\<lparr>updated := updated st + 1\<rparr>
                  else st\<lparr>added := added st + 1\<rparr>)))"

definition main ::
  "(string \<times> raw_record) list \<Rightarrow> existing_item list \<Rightarrow> local_record list \<times> stats" where
  "main rt_items existing_items =
     (let id_to_name_map = foldl name_map_step [] rt_items;
          existing_by_name = foldl index_step [] existing_items;
          (merged_items, st) =
            foldl (merge_step id_to_name_map existing_by_name)
              ([], \<lparr>updated = 0, added = 0, skipped = 0\<rparr>) rt_items
      in (sort_key (\<lambda>x. lower (name x)) merged_items, st))"

section \<open>Well-formed local records and sample data\<close>

text \<open>
  A local record that follows the schema of the local catalog has its name, its five
  curator-owned keys and the key \<open>recycleValuePercent\<close> (which may hold \<open>null\<close>).
\<close>

definition well_formed_local :: "existing_item \<Rightarrow> bool" where
  "well_formed_local e \<longleftrightarrow>
     ex_name e \<noteq> None \<and> ex_projectUses e \<noteq> None \<and> ex_workshopUses e \<noteq> None
     \<and> ex_keepForQuests e \<noteq> None \<and> ex_questUses e \<noteq> None \<and> ex_recommendation e \<noteq> None
     \<and> ex_recycleValuePercent e \<noteq> None"

text \<open>Records used where a property is run on concrete data.\<close>

definition rusty_gear :: raw_record where
  "rusty_gear =
     \<lparr> rt_name = Some (Localized [(''en'', ''Rusty Gear'')]), rt_description = None,
       rt_type = Some ''Basic Material'', rt_rarity = Some ''Common'', rt_value = None,
       rt_weightKg = None, rt_stackSize = None, rt_recyclesInto = Some [(''scrap_metal'', 0)],
       rt_foundIn = None, rt_imageFilename = None \<rparr>"

definition gold_watch :: raw_record where
  "gold_watch =
     \<lparr> rt_name = Some (Localized [(''en'', ''Gold Watch'')]), rt_description = None,
       rt_type = Some ''Valuable'', rt_rarity = Some ''Legendary'', rt_value = Some 900,
       rt_weightKg = None, rt_stackSize = None,
       rt_recyclesInto = Some [(''scrap_metal'', 2), (''gold_dust'', 0), (''wires'', 1)],
       rt_foundIn = Some ''Dam, , Blue Gate'', rt_imageFilename = None \<rparr>"

definition curated_watch :: existing_item where
  "curated_watch =
     \<lparr> ex_name = Some ''Gold Watch'', ex_projectUses = Some [''Workshop A''],
       ex_workshopUses = Some [], ex_keepForQuests = Some False, ex_questUses = Some [],
       ex_recommendation = Some ''Keep'', ex_recycleValuePercent = Some (Some 37),
       ex_other_keys = [''category'', ''rarity'', ''value''] \<rparr>"

text \<open>A raw record that holds an English name and nothing else.\<close>

definition named_raw :: "string \<Rightarrow> raw_record" where
  "named_raw n =
     \<lparr> rt_name = Some (Localized [(''en'', n)]), rt_description = None, rt_type = None,
       rt_rarity = None, rt_value = None, rt_weightKg = None, rt_stackSize = None,
       rt_recyclesInto = None, rt_foundIn = None, rt_imageFilename = None \<rparr>"

section \<open>Properties of the edit distance\<close>

lemma edit_rec_Nil2: "edit_rec xs [] = length xs"
  by (cases xs) simp_all

lemma edit_rec_same: "edit_rec xs xs = 0"
  by (induction xs) simp_all

lemma edit_rec_sym: "edit_rec xs ys = edit_rec ys xs"
proof (induction xs ys rule: edit_rec.induct)
  case (1 ys)
  show ?case by (simp add: edit_rec_Nil2)
next
  case (2 x xs)
  show ?case by simp
next
  case (3 x xs y ys)
  then show ?case by (simp add: min.commute min.left_commute eq_commute)
qed

lemma inner_loop_row:
  assumes prev_len: "length prev = Suc (length s2)"
    and prev_val: "\<And>j. j \<le> length s2 \<Longrightarrow> prev ! j = edit_rec xs (rev (take j s2))"
    and n: "n \<le> length s2"
  shows "length (foldl (inner_step prev c1) [length xs + 1] (List.enumerate 0 (take n s2))) = Suc n
       \<and> (\<forall>j \<le> n. foldl (inner_step prev c1) [length xs + 1] (List.enumerate 0 (take n s2)) ! j
                    = edit_rec (c1 # xs) (rev (take j s2)))"
  using n
proof (induction n)
  case 0
  show ?case by simp
next
  case (Suc n)
  let ?row = "foldl (inner_step prev c1) [length xs + 1] (List.enumerate 0 (take n s2))"
  from Suc have len: "length ?row = Suc n"
    and val: "\<And>j. j \<le> n \<Longrightarrow> ?row ! j = edit_rec (c1 # xs) (rev (take j s2))"
    by simp_all
  from Suc.prems have lt: "n < length s2" by simp
  have tk: "take (Suc n) s2 = take n s2 @ [s2 ! n]"
    using lt by (rule take_Suc_conv_app_nth)
  have en: "List.enumerate 0 (take (Suc n) s2) = List.enumerate 0 (take n s2) @ [(n, s2 ! n)]"
    using lt by (simp add: tk enumerate_append_eq min_def)
  have row': "foldl (inner_step prev c1) [length xs + 1] (List.enumerate 0 (take (Suc n) s2))
      = ?row @ [min (prev ! (n + 1) + 1)
                  (min (?row ! n + 1) (prev ! n + (if c1 \<noteq> s2 ! n then 1 else 0)))]"
    by (simp add: en inner_step_def Let_def)
  have cell: "min (prev ! (n + 1) + 1)
                  (min (?row ! n + 1) (prev ! n + (if c1 \<noteq> s2 ! n then 1 else 0)))
      = edit_rec (c1 # xs) (rev (take (Suc n) s2))"
    using lt prev_val [of "Suc n"] prev_val [of n] val [of n] by (simp add: tk)
  show ?case
    unfolding row' cell
    using len val by (auto simp: nth_append less_Suc_eq_le le_Suc_eq)
qed

lemma outer_loop_row:
  assumes n: "n \<le> length s1"
  shows "length (foldl (outer_step s2) [0..<length s2 + 1] (List.enumerate 0 (take n s1)))
           = Suc (length s2)
       \<and> (\<forall>j \<le> length s2. foldl (outer_step s2) [0..<length s2 + 1] (List.enumerate 0 (take n s1)) ! j
                    = edit_rec (rev (take n s1)) (rev (take j s2)))"
  using n
proof (induction n)
  case 0
  show ?case by (auto simp: nth_append less_Suc_eq_le simp del: upt_Suc)
next
  case (Suc n)
  let ?prev = "foldl (outer_step s2) [0..<length s2 + 1] (List.enumerate 0 (take n s1))"
  from Suc have len: "length ?prev = Suc (length s2)"
    and val: "\<And>j. j \<le> length s2 \<Longrightarrow> ?prev ! j = edit_rec (rev (take n s1)) (rev (take j s2))"
    by simp_all
  from Suc.prems have lt: "n < length s1" by simp
  have tk: "take (Suc n) s1 = take n s1 @ [s1 ! n]"
    using lt by (rule take_Suc_conv_app_nth)
  have en: "List.enumerate 0 (take (Suc n) s1) = List.enumerate 0 (take n s1) @ [(n, s1 ! n)]"
    using lt by (simp add: tk enumerate_append_eq min_def)
  have row': "foldl (outer_step s2) [0..<length s2 + 1] (List.enumerate 0 (take (Suc n) s1))
      = foldl (inner_step ?prev (s1 ! n)) [length (rev (take n s1)) + 1] (List.enumerate 0 (take (length s2) s2))"
    using lt by (simp add: en outer_step_def min_def)
  show ?case
    unfolding row'
    using inner_loop_row [of ?prev s2 "rev (take n s1)" "length s2" "s1 ! n", OF len val]
    by (simp add: tk)
qed

lemma levenshtein_distance_edit_rec:
  "levenshtein_distance s1 s2 = edit_rec (rev s1) (rev s2)"
proof -
  have core: "edit_rec (rev a) (rev b)
      = (if length b = 0 then length a
         else last (foldl (outer_step b) [0..<length b + 1] (List.enumerate 0 a)))" for a b
  proof (cases "length b = 0")
    case True
    then show ?thesis by (simp add: edit_rec_Nil2)
  next
    case False
    let ?row = "foldl (outer_step b) [0..<length b + 1] (List.enumerate 0 a)"
    from outer_loop_row [of "length a" a b]
    have len: "length ?row = Suc (length b)"
      and val: "?row ! length b = edit_rec (rev a) (rev b)"
      by simp_all
    from len have "?row \<noteq> []" by auto
    then have "last ?row = ?row ! length b"
      using len by (simp add: last_conv_nth)
    with val False show ?thesis by simp
  qed
  show ?thesis
  proof (cases "length s1 < length s2")
    case True
    then have "levenshtein_distance s1 s2 = levenshtein_distance s2 s1"
      by (subst levenshtein_distance.simps) simp
    also have "\<dots> = edit_rec (rev s2) (rev s1)"
      using True by (subst levenshtein_distance.simps) (simp add: core)
    finally show ?thesis by (simp add: edit_rec_sym)
  next
    case False
    then show ?thesis
      by (subst levenshtein_distance.simps) (simp add: core)
  qed
qed

text \<open>
  C9. The distance from a string to itself is 0, the distance is symmetric, and the
  distance between the empty string and any string is the length of that string; so
  the distance between the empty string and "abc" is 3.
\<close>

theorem levenshtein_distance_laws:
  "levenshtein_distance a a = 0
   \<and> levenshtein_distance a b = levenshtein_distance b a
   \<and> levenshtein_distance [] b = length b
   \<and> levenshtein_distance a [] = length a
   \<and> levenshtein_distance '''' ''abc'' = 3"
proof -
  have "edit_rec (rev a) (rev b) = edit_rec (rev b) (rev a)"
    by (rule edit_rec_sym)
  then show ?thesis
    by (simp add: levenshtein_distance_edit_rec edit_rec_same edit_rec_Nil2)
qed

section \<open>Evaluating the edit distance\<close>

text \<open>Equal first characters cancel; this makes the distance of concrete strings cheap to compute.\<close>

lemma edit_rec_Cons2_le: "edit_rec xs (y # ys) \<le> edit_rec xs ys + 1"
  by (cases xs) simp_all

lemma edit_rec_le_Cons1: "edit_rec xs ys \<le> edit_rec (x # xs) ys + 1"
proof (induction ys)
  case Nil
  show ?case by (simp add: edit_rec_Nil2)
next
  case (Cons y ys)
  have "edit_rec xs (y # ys) \<le> edit_rec xs ys + 1" by (rule edit_rec_Cons2_le)
  with Cons show ?case by simp
qed

lemma edit_rec_le_Cons2: "edit_rec xs ys \<le> edit_rec xs (y # ys) + 1"
  using edit_rec_le_Cons1 [of ys xs y] by (simp add: edit_rec_sym)

lemma edit_rec_cancel: "edit_rec (x # xs) (x # ys) = edit_rec xs ys"
  using edit_rec_le_Cons1 [of xs ys x] edit_rec_le_Cons2 [of xs ys x] by simp

lemmas lev_eval = levenshtein_distance_edit_rec edit_rec_cancel edit_rec_Nil2

section \<open>Dictionaries: facts\<close>

lemma map_of_dict_set: "map_of (dict_set d k v) = (map_of d)(k \<mapsto> v)"
  by (induction d k v rule: dict_set.induct) auto

lemma keys_dict_set: "fst ` set (dict_set d k v) = insert k (fst ` set d)"
  by (induction d k v rule: dict_set.induct) auto

lemma distinct_dict_set: "distinct (map fst d) \<Longrightarrow> distinct (map fst (dict_set d k v))"
  by (induction d k v rule: dict_set.induct) (auto simp: keys_dict_set)

lemma dict_set_not_Nil: "dict_set d k v \<noteq> []"
  by (cases d) (auto split: if_splits)

section \<open>Evaluation on concrete strings and records\<close>

lemmas str_eval = normalize_name_def lower_def lower_char_def is_key_char_def char_of_def
  bit_Suc_0_iff

lemmas record_eval = base_item.defs local_record.defs

section \<open>The transformer: what an existing record can and cannot change\<close>

lemma well_formed_nonempty: "well_formed_local e \<Longrightarrow> dict_nonempty e"
  by (simp add: well_formed_local_def dict_nonempty_def)

text \<open>
  C3. When the existing record is present and follows the schema of the local catalog,
  the output carries its projectUses, workshopUses, keepForQuests, questUses and
  recommendation unchanged, and its recycleValuePercent (a number, or null when the
  existing one is null), whatever the raw record holds.
\<close>

theorem transform_item_keeps_curated:
  assumes "well_formed_local e"
  shows "Some (projectUses (transform_item rt_item id_to_name_map (Some e))) = ex_projectUses e
       \<and> Some (workshopUses (transform_item rt_item id_to_name_map (Some e))) = ex_workshopUses e
       \<and> Some (keepForQuests (transform_item rt_item id_to_name_map (Some e))) = ex_keepForQuests e
       \<and> Some (questUses (transform_item rt_item id_to_name_map (Some e))) = ex_questUses e
       \<and> Some (recommendation (transform_item rt_item id_to_name_map (Some e))) = ex_recommendation e
       \<and> Some (recycleValuePercent (transform_item rt_item id_to_name_map (Some e)))
           = ex_recycleValuePercent e"
proof -
  have ne: "dict_nonempty e" using assms by (rule well_formed_nonempty)
  from assms obtain pu wu kq qu rc rv where fields:
    "ex_projectUses e = Some pu" "ex_workshopUses e = Some wu" "ex_keepForQuests e = Some kq"
    "ex_questUses e = Some qu" "ex_recommendation e = Some rc" "ex_recycleValuePercent e = Some rv"
    by (auto simp: well_formed_local_def)
  show ?thesis
    by (cases rv) (simp_all add: transform_item_def Let_def record_eval ne fields split del: if_split)
qed

theorem transform_item_keeps_curated_witness:
  "well_formed_local curated_watch
   \<and> projectUses (transform_item gold_watch [] (Some curated_watch)) = [''Workshop A'']
   \<and> recommendation (transform_item gold_watch [] (Some curated_watch)) = ''Keep''
   \<and> recycleValuePercent (transform_item gold_watch [] (Some curated_watch)) = Some 37"
proof -
  have wf: "well_formed_local curated_watch"
    by (simp add: well_formed_local_def curated_watch_def)
  from transform_item_keeps_curated [OF wf, of gold_watch "[]"] wf
  show ?thesis by (simp add: curated_watch_def)
qed

lemma transform_item_existing_irrelevant:
  "name (transform_item rt_item id_to_name_map None) = name (transform_item rt_item id_to_name_map (Some e))
 \<and> category (transform_item rt_item id_to_name_map None) = category (transform_item rt_item id_to_name_map (Some e))
 \<and> rarity (transform_item rt_item id_to_name_map None) = rarity (transform_item rt_item id_to_name_map (Some e))
 \<and> value (transform_item rt_item id_to_name_map None) = value (transform_item rt_item id_to_name_map (Some e))
 \<and> description (transform_item rt_item id_to_name_map None) = description (transform_item rt_item id_to_name_map (Some e))
 \<and> weight (transform_item rt_item id_to_name_map None) = weight (transform_item rt_item id_to_name_map (Some e))
 \<and> stackSize (transform_item rt_item id_to_name_map None) = stackSize (transform_item rt_item id_to_name_map (Some e))
 \<and> recycleOutputs (transform_item rt_item id_to_name_map None) = recycleOutputs (transform_item rt_item id_to_name_map (Some e))
 \<and> foundIn (transform_item rt_item id_to_name_map None) = foundIn (transform_item rt_item id_to_name_map (Some e))
 \<and> imageUrl (transform_item rt_item id_to_name_map None) = imageUrl (transform_item rt_item id_to_name_map (Some e))"
proof -
  consider (absent) "ex_recycleValuePercent e = None"
    | (null) "ex_recycleValuePercent e = Some None"
    | (number) p where "ex_recycleValuePercent e = Some (Some p)"
    by (cases "ex_recycleValuePercent e") auto
  note rvp = this
  show ?thesis
  proof (cases "dict_nonempty e")
    case True
    from rvp show ?thesis
      by cases (simp_all add: transform_item_def Let_def record_eval True split del: if_split)
  next
    case False
    then show ?thesis
      by (simp add: transform_item_def Let_def record_eval split del: if_split)
  qed
qed

text \<open>
  C10. Two runs of the transformer on the same raw record and reference table, one
  without an existing record and one with any existing record, agree on name, category,
  rarity, value, description, weight, stackSize, recycleOutputs, foundIn and imageUrl.
\<close>

theorem transform_item_canonical_fields:
  "name (transform_item rt_item id_to_name_map None) = name (transform_item rt_item id_to_name_map (Some e))
 \<and> category (transform_item rt_item id_to_name_map None) = category (transform_item rt_item id_to_name_map (Some e))
 \<and> rarity (transform_item rt_item id_to_name_map None) = rarity (transform_item rt_item id_to_name_map (Some e))
 \<and> value (transform_item rt_item id_to_name_map None) = value (transform_item rt_item id_to_name_map (Some e))
 \<and> description (transform_item rt_item id_to_name_map None) = description (transform_item rt_item id_to_name_map (Some e))
 \<and> weight (transform_item rt_item id_to_name_map None) = weight (transform_item rt_item id_to_name_map (Some e))
 \<and> stackSize (transform_item rt_item id_to_name_map None) = stackSize (transform_item rt_item id_to_name_map (Some e))
 \<and> recycleOutputs (transform_item rt_item id_to_name_map None) = recycleOutputs (transform_item rt_item id_to_name_map (Some e))
 \<and> foundIn (transform_item rt_item id_to_name_map None) = foundIn (transform_item rt_item id_to_name_map (Some e))
 \<and> imageUrl (transform_item rt_item id_to_name_map None) = imageUrl (transform_item rt_item id_to_name_map (Some e))"
  by (rule transform_item_existing_irrelevant)

text \<open>
  C2, as the code runs it. The claim asks for "Recycle" only when some count of
  recyclesInto is strictly positive. A common basic material whose only recycle count is
  zero passes rules 1 to 4, and the policy answers "Recycle" for it, while the
  transformer gives the same record no recycle outputs.
\<close>

theorem auto_recommend_all_zero_counts:
  "auto_recommend rusty_gear = ''Recycle''
   \<and> recommendation (transform_item rusty_gear [] None) = ''Recycle''
   \<and> recycleOutputs (transform_item rusty_gear [] None) = None"
  by (simp add: rusty_gear_def transform_item_def auto_recommend_def recycle_step_def Let_def
      record_eval)

section \<open>The matcher: exact lookup\<close>

text \<open>
  C7. If the normalized key of the name is a key of the index, the matcher returns the
  entry stored under that key; the fuzzy fallback is not consulted, whatever other keys
  the index holds.
\<close>

theorem find_existing_item_exact:
  assumes "map_of index (normalize_name nm) = Some item"
  shows "find_existing_item nm index = Some item"
  using assms by (simp add: find_existing_item_def)

theorem find_existing_item_exact_witness:
  "find_existing_item ''Iron Plate'' [(''ironplatex'', 2::nat), (''ironplate'', 1)] = Some 1"
proof -
  have "map_of [(''ironplatex'', 2::nat), (''ironplate'', 1)] (normalize_name ''Iron Plate'')
          = Some 1"
    by (simp add: str_eval)
  then show ?thesis by (rule find_existing_item_exact)
qed

text \<open>
  C1, as the code runs it. The claim asks for no match when the normalized key is empty.
  The name "---" has the empty key; the matcher has no test for it, so the fallback
  compares the empty key with every key of the index and accepts the key "arc", at
  distance 3, within the bound of 3.
\<close>

theorem find_existing_item_empty_key:
  "normalize_name ''---'' = [] \<and> find_existing_item ''---'' [(''arc'', x)] = Some x"
  by (simp add: str_eval find_existing_item_def fuzzy_step_def max_distance_def
      levenshtein_distance_edit_rec)

section \<open>The matcher: fuzzy fallback\<close>

lemma within_bound_iff:
  "within_bound q k \<longleftrightarrow>
     levenshtein_distance q k \<le> 3 \<or> 5 * levenshtein_distance q k \<le> length q"
proof -
  have "(of_nat d :: rat) \<le> of_nat n * 0.2 \<longleftrightarrow> 5 * d \<le> n" for d n :: nat
  proof -
    have "(of_nat d :: rat) \<le> of_nat n * 0.2 \<longleftrightarrow> (of_nat (5 * d) :: rat) \<le> of_nat n"
      by (simp add: mult.commute)
    also have "\<dots> \<longleftrightarrow> 5 * d \<le> n" by (rule of_nat_le_iff)
    finally show ?thesis .
  qed
  moreover have "(of_nat d :: rat) \<le> 3 \<longleftrightarrow> d \<le> 3" for d :: nat
    by simp
  ultimately show ?thesis
    by (simp add: within_bound_def max_distance_def le_max_iff_disj)
qed

lemma fuzzy_step_eval:
  "fuzzy_step q (bm, bd) (k, v) =
     (if enat (levenshtein_distance q k) < bd \<and> within_bound q k
      then (Some v, enat (levenshtein_distance q k)) else (bm, bd))"
  by (simp add: fuzzy_step_def within_bound_def Let_def)

lemma fuzzy_loop_invariant:
  "(fst (foldl (fuzzy_step q) (None, \<infinity>) index) = None
      \<and> snd (foldl (fuzzy_step q) (None, \<infinity>) index) = \<infinity>
      \<and> (\<forall>k \<in> set (map fst index). \<not> within_bound q k))
   \<or> (\<exists>i. first_best q index i
          \<and> fst (foldl (fuzzy_step q) (None, \<infinity>) index) = Some (snd (index ! i))
          \<and> snd (foldl (fuzzy_step q) (None, \<infinity>) index)
              = enat (levenshtein_distance q (fst (index ! i))))"
proof (induction index rule: rev_induct)
  case Nil
  show ?case by simp
next
  case (snoc x xs)
  obtain k v where x: "x = (k, v)" by (cases x)
  let ?prev = "foldl (fuzzy_step q) (None, \<infinity>) xs"
  let ?d = "levenshtein_distance q"
  obtain bm bd where prev: "?prev = (bm, bd)" by (cases ?prev)
  have step: "foldl (fuzzy_step q) (None, \<infinity>) (xs @ [x])
      = (if enat (?d k) < bd \<and> within_bound q k then (Some v, enat (?d k)) else (bm, bd))"
    by (simp add: x prev fuzzy_step_eval)
  from snoc.IH prev consider
      (none) "bm = None" "bd = \<infinity>" "\<forall>k' \<in> set (map fst xs). \<not> within_bound q k'"
    | (some) i where "first_best q xs i" "bm = Some (snd (xs ! i))" "bd = enat (?d (fst (xs ! i)))"
    by auto
  then show ?case
  proof cases
    case none
    show ?thesis
    proof (cases "within_bound q k")
      case True
      have fb: "first_best q (xs @ [x]) (length xs)"
        using none True by (auto simp: first_best_def x)
      have res: "foldl (fuzzy_step q) (None, \<infinity>) (xs @ [x]) = (Some v, enat (?d k))"
        unfolding step using none True by simp
      show ?thesis
        unfolding res using fb by (intro disjI2 exI [of _ "length xs"]) (simp add: x)
    next
      case False
      have res: "foldl (fuzzy_step q) (None, \<infinity>) (xs @ [x]) = (None, \<infinity>)"
        unfolding step using none False by simp
      show ?thesis
        unfolding res using none False by (intro disjI1) (simp add: x)
    qed
  next
    case some
    from some(1) have i: "i < length xs" by (simp add: first_best_def)
    show ?thesis
    proof (cases "?d k < ?d (fst (xs ! i)) \<and> within_bound q k")
      case True
      have fb: "first_best q (xs @ [x]) (length xs)"
        using some(1) True by (fastforce simp: first_best_def x)
      have res: "foldl (fuzzy_step q) (None, \<infinity>) (xs @ [x]) = (Some v, enat (?d k))"
        unfolding step using some True by simp
      show ?thesis
        unfolding res using fb by (intro disjI2 exI [of _ "length xs"]) (simp add: x)
    next
      case False
      have fb: "first_best q (xs @ [x]) i"
        using some(1) False i by (auto simp: first_best_def x nth_append)
      have res: "foldl (fuzzy_step q) (None, \<infinity>) (xs @ [x]) = (bm, bd)"
        unfolding step using some False by auto
      show ?thesis
        unfolding res using fb some i by (intro disjI2 exI [of _ i]) (simp add: nth_append)
    qed
  qed
qed

lemma first_best_unique:
  assumes "first_best q index i" "first_best q index j"
  shows "i = j"
proof -
  have less: False if a: "first_best q index a" and b: "first_best q index b" and "a < b" for a b
  proof -
    from b have lb: "b < length index" by (simp add: first_best_def)
    with \<open>a < b\<close> have "fst (index ! a) \<in> set (map fst (take b index))"
      by (auto simp: in_set_conv_nth intro!: image_eqI [where x = "index ! a"] exI [where x = a])
    moreover from a have "within_bound q (fst (index ! a))" by (simp add: first_best_def)
    ultimately have "levenshtein_distance q (fst (index ! b)) < levenshtein_distance q (fst (index ! a))"
      using b by (auto simp: first_best_def)
    moreover have "fst (index ! b) \<in> set (map fst index)" using lb by simp
    then have "levenshtein_distance q (fst (index ! a)) \<le> levenshtein_distance q (fst (index ! b))"
      using a b by (auto simp: first_best_def)
    ultimately show False by simp
  qed
  show ?thesis
    using less [of i j] less [of j i] assms by (cases i j rule: linorder_cases) auto
qed

lemma fuzzy_fallback:
  assumes "map_of index (normalize_name nm) = None"
  shows "find_existing_item nm index = fst (foldl (fuzzy_step (normalize_name nm)) (None, \<infinity>) index)"
  using assms by (simp add: find_existing_item_def)

lemma find_first_best:
  assumes "map_of index (normalize_name nm) = None" "first_best (normalize_name nm) index i"
  shows "find_existing_item nm index = Some (snd (index ! i))"
proof -
  from assms(2) have "fst (index ! i) \<in> set (map fst index)"
    by (simp add: first_best_def)
  moreover from assms(2) have "within_bound (normalize_name nm) (fst (index ! i))"
    by (simp add: first_best_def)
  ultimately obtain j where j: "first_best (normalize_name nm) index j"
    "fst (foldl (fuzzy_step (normalize_name nm)) (None, \<infinity>) index) = Some (snd (index ! j))"
    using fuzzy_loop_invariant [of "normalize_name nm" index] by blast
  from first_best_unique [OF assms(2) j(1)] j(2) show ?thesis
    by (simp add: fuzzy_fallback [OF assms(1)])
qed

lemma find_Some_first_best:
  assumes "map_of index (normalize_name nm) = None" "find_existing_item nm index = Some v"
  shows "\<exists>i. first_best (normalize_name nm) index i \<and> snd (index ! i) = v"
  using fuzzy_loop_invariant [of "normalize_name nm" index] assms
  by (auto simp: fuzzy_fallback)

lemma find_None_iff:
  assumes "map_of index (normalize_name nm) = None"
  shows "find_existing_item nm index = None
     \<longleftrightarrow> (\<forall>k \<in> set (map fst index). \<not> within_bound (normalize_name nm) k)"
proof
  assume "find_existing_item nm index = None"
  then show "\<forall>k \<in> set (map fst index). \<not> within_bound (normalize_name nm) k"
    using fuzzy_loop_invariant [of "normalize_name nm" index] assms
    by (auto simp: fuzzy_fallback)
next
  assume none: "\<forall>k \<in> set (map fst index). \<not> within_bound (normalize_name nm) k"
  have "\<not> first_best (normalize_name nm) index i" for i
    using none by (auto simp: first_best_def)
  then show "find_existing_item nm index = None"
    using fuzzy_loop_invariant [of "normalize_name nm" index] assms
    by (auto simp: fuzzy_fallback)
qed

text \<open>
  C5. When no key of the index equals the normalized key, the matcher returns the entry at
  the first position of least distance among the entries within the bound: an entry at
  a later position with the same distance is not chosen. It returns nothing exactly
  when no key is within the bound.
\<close>

theorem fuzzy_fallback_first_minimum:
  assumes "map_of index (normalize_name nm) = None"
  shows "(first_best (normalize_name nm) index i \<longrightarrow>
            find_existing_item nm index = Some (snd (index ! i)))
       \<and> (find_existing_item nm index = Some v \<longrightarrow>
            (\<exists>j. first_best (normalize_name nm) index j \<and> snd (index ! j) = v))
       \<and> (find_existing_item nm index = None \<longleftrightarrow>
            (\<forall>k \<in> set (map fst index). \<not> within_bound (normalize_name nm) k))"
  using find_first_best [OF assms, of i] find_Some_first_best [OF assms, of v]
    find_None_iff [OF assms]
  by blast

theorem fuzzy_fallback_first_minimum_witness:
  "find_existing_item ''Plate'' [(''xplate'', 1::nat), (''yplate'', 2)] = Some 1
   \<and> find_existing_item ''Plate'' [(''yplate'', 2::nat), (''xplate'', 1)] = Some 2"
proof -
  have q: "normalize_name ''Plate'' = ''plate''" by (simp add: str_eval)
  have d1: "levenshtein_distance ''plate'' ''xplate'' = 1"
    by (simp add: lev_eval del: edit_rec.simps(3))
  have d2: "levenshtein_distance ''plate'' ''yplate'' = 1"
    by (simp add: lev_eval del: edit_rec.simps(3))
  have m1: "map_of [(''xplate'', 1::nat), (''yplate'', 2)] (normalize_name ''Plate'') = None"
    by (simp add: q)
  have m2: "map_of [(''yplate'', 2::nat), (''xplate'', 1)] (normalize_name ''Plate'') = None"
    by (simp add: q)
  have f1: "first_best (normalize_name ''Plate'') [(''xplate'', 1::nat), (''yplate'', 2)] 0"
    by (simp add: q first_best_def within_bound_iff d1 d2)
  have f2: "first_best (normalize_name ''Plate'') [(''yplate'', 2::nat), (''xplate'', 1)] 0"
    by (simp add: q first_best_def within_bound_iff d1 d2)
  from fuzzy_fallback_first_minimum [OF m1, of 0] fuzzy_fallback_first_minimum [OF m2, of 0] f1 f2
  show ?thesis by simp
qed

text \<open>
  C4. When no key of the index equals the normalized key: an entry the matcher returns is
  at a distance of at most max(3, 0.2 * length of the key); for a key of length 10, an
  entry at distance 2 is returned when no entry is closer and none before it is as
  close, an entry returned is at distance at most 3, and nothing is returned when every
  entry is at distance 4 or more.
\<close>

theorem fuzzy_fallback_threshold:
  assumes "map_of index (normalize_name nm) = None"
  shows "(find_existing_item nm index = Some v \<longrightarrow>
            (\<exists>i < length index. snd (index ! i) = v
               \<and> of_nat (levenshtein_distance (normalize_name nm) (fst (index ! i)))
                   \<le> max (3::rat) (of_nat (length (normalize_name nm)) * 0.2)))
       \<and> (length (normalize_name nm) = 10 \<and> i < length index
            \<and> levenshtein_distance (normalize_name nm) (fst (index ! i)) = 2
            \<and> (\<forall>k \<in> set (map fst index). 2 \<le> levenshtein_distance (normalize_name nm) k)
            \<and> (\<forall>k \<in> set (map fst (take i index)). 2 < levenshtein_distance (normalize_name nm) k)
          \<longrightarrow> find_existing_item nm index = Some (snd (index ! i)))
       \<and> (length (normalize_name nm) = 10 \<and> find_existing_item nm index = Some v \<longrightarrow>
            (\<exists>i < length index. snd (index ! i) = v
               \<and> levenshtein_distance (normalize_name nm) (fst (index ! i)) \<le> 3))
       \<and> (length (normalize_name nm) = 10
            \<and> (\<forall>k \<in> set (map fst index). 4 \<le> levenshtein_distance (normalize_name nm) k)
          \<longrightarrow> find_existing_item nm index = None)"
proof (intro conjI impI)
  assume "find_existing_item nm index = Some v"
  from find_Some_first_best [OF assms this]
  show "\<exists>i < length index. snd (index ! i) = v
               \<and> of_nat (levenshtein_distance (normalize_name nm) (fst (index ! i)))
                   \<le> max (3::rat) (of_nat (length (normalize_name nm)) * 0.2)"
    by (auto simp: first_best_def within_bound_def max_distance_def)
next
  assume a: "length (normalize_name nm) = 10 \<and> i < length index
            \<and> levenshtein_distance (normalize_name nm) (fst (index ! i)) = 2
            \<and> (\<forall>k \<in> set (map fst index). 2 \<le> levenshtein_distance (normalize_name nm) k)
            \<and> (\<forall>k \<in> set (map fst (take i index)). 2 < levenshtein_distance (normalize_name nm) k)"
  then have "first_best (normalize_name nm) index i"
    by (auto simp: first_best_def within_bound_iff)
  from find_first_best [OF assms this]
  show "find_existing_item nm index = Some (snd (index ! i))" .
next
  assume a: "length (normalize_name nm) = 10 \<and> find_existing_item nm index = Some v"
  from find_Some_first_best [OF assms conjunct2 [OF a]] a
  show "\<exists>i < length index. snd (index ! i) = v
               \<and> levenshtein_distance (normalize_name nm) (fst (index ! i)) \<le> 3"
    by (auto simp: first_best_def within_bound_iff)
next
  assume a: "length (normalize_name nm) = 10
            \<and> (\<forall>k \<in> set (map fst index). 4 \<le> levenshtein_distance (normalize_name nm) k)"
  then have "\<forall>k \<in> set (map fst index). \<not> within_bound (normalize_name nm) k"
    by (fastforce simp: within_bound_iff)
  then show "find_existing_item nm index = None"
    by (simp add: find_None_iff [OF assms])
qed

theorem fuzzy_fallback_threshold_witness:
  "find_existing_item ''Arc Battery'' [(''attery'', 40::nat), (''cbattery'', 20)] = Some 20
   \<and> find_existing_item ''Arc Battery'' [(''attery'', 40::nat)] = None"
proof -
  have q: "normalize_name ''Arc Battery'' = ''arcbattery''" by (simp add: str_eval)
  have d4: "levenshtein_distance ''arcbattery'' ''attery'' = 4"
    by (simp add: lev_eval del: edit_rec.simps(3))
  have d2: "levenshtein_distance ''arcbattery'' ''cbattery'' = 2"
    by (simp add: lev_eval del: edit_rec.simps(3))
  have m1: "map_of [(''attery'', 40::nat), (''cbattery'', 20)] (normalize_name ''Arc Battery'') = None"
    by (simp add: q)
  have m2: "map_of [(''attery'', 40::nat)] (normalize_name ''Arc Battery'') = None"
    by (simp add: q)
  from fuzzy_fallback_threshold [OF m1, of _ 1] fuzzy_fallback_threshold [OF m2]
  show ?thesis by (simp add: q d4 d2)
qed

section \<open>The transformer: recycle outputs\<close>

lemma recycle_step_pair:
  "recycle_step m d (i, c) = (if 0 < c then dict_set d (id_to_display_name i m) c else d)"
  by (simp add: recycle_step_def)

lemma recycle_fold_keys:
  "fst ` set (foldl (recycle_step m) d xs)
     = fst ` set d \<union> {id_to_display_name i m | i c. (i, c) \<in> set xs \<and> 0 < c}"
proof (induction xs arbitrary: d)
  case Nil
  show ?case by simp
next
  case (Cons x xs)
  obtain i c where x: "x = (i, c)" by (cases x)
  show ?case
    by (auto simp: Cons x recycle_step_pair keys_dict_set)
qed

lemma recycle_fold_distinct:
  "distinct (map fst d) \<Longrightarrow> distinct (map fst (foldl (recycle_step m) d xs))"
proof (induction xs arbitrary: d)
  case Nil
  then show ?case by simp
next
  case (Cons x xs)
  obtain i c where x: "x = (i, c)" by (cases x)
  from Cons.prems have "distinct (map fst (recycle_step m d x))"
    by (simp add: x recycle_step_pair distinct_dict_set)
  from Cons.IH [OF this] show ?case by simp
qed

lemma recycle_fold_member:
  assumes "(n, c) \<in> set (foldl (recycle_step m) d xs)"
  shows "(n, c) \<in> set d \<or> (\<exists>i. (i, c) \<in> set xs \<and> 0 < c \<and> id_to_display_name i m = n)"
  using assms
proof (induction xs arbitrary: d)
  case Nil
  then show ?case by simp
next
  case (Cons x xs)
  obtain i k where x: "x = (i, k)" by (cases x)
  from Cons.prems have "(n, c) \<in> set (foldl (recycle_step m) (recycle_step m d x) xs)"
    by simp
  from Cons.IH [OF this] consider
      "(n, c) \<in> set (recycle_step m d x)"
    | "\<exists>i. (i, c) \<in> set xs \<and> 0 < c \<and> id_to_display_name i m = n"
    by blast
  then show ?case
  proof cases
    case 1
    have "(n, c) \<in> set (dict_set d k' v) \<Longrightarrow> (n, c) \<in> set d \<or> (n, c) = (k', v)" for k' v
      by (induction d k' v rule: dict_set.induct) (auto split: if_splits)
    with 1 show ?thesis
      by (fastforce simp: x recycle_step_pair split: if_splits)
  next
    case 2
    then show ?thesis by auto
  qed
qed

lemma recycle_fold_lookup:
  assumes "(i, c) \<in> set xs" "0 < c"
    and "\<forall>(i', c') \<in> set xs. 0 < c' \<and> id_to_display_name i' m = id_to_display_name i m \<longrightarrow> c' = c"
  shows "map_of (foldl (recycle_step m) d xs) (id_to_display_name i m) = Some c"
  using assms
proof (induction xs arbitrary: d rule: rev_induct)
  case Nil
  then show ?case by simp
next
  case (snoc x xs)
  obtain j k where x: "x = (j, k)" by (cases x)
  show ?case
  proof (cases "0 < k \<and> id_to_display_name j m = id_to_display_name i m")
    case True
    with snoc.prems have "k = c" by (auto simp: x)
    with True show ?thesis
      by (simp add: x recycle_step_pair map_of_dict_set)
  next
    case False
    with snoc.prems have "(i, c) \<in> set xs" by (auto simp: x)
    moreover from snoc.prems have "\<forall>(i', c') \<in> set xs.
        0 < c' \<and> id_to_display_name i' m = id_to_display_name i m \<longrightarrow> c' = c"
      by auto
    ultimately have "map_of (foldl (recycle_step m) d xs) (id_to_display_name i m) = Some c"
      using snoc.IH snoc.prems(2) by blast
    with False show ?thesis
      by (auto simp: x recycle_step_pair map_of_dict_set)
  qed
qed

lemma recycleOutputs_transform_item:
  "recycleOutputs (transform_item rt_item m existing) =
     (let outputs = foldl (recycle_step m) []
                      (case rt_recyclesInto rt_item of None \<Rightarrow> [] | Some d \<Rightarrow> d)
      in if outputs = [] then None else Some outputs)"
proof -
  have base: "recycleOutputs (transform_item rt_item m None) =
     (let outputs = foldl (recycle_step m) []
                      (case rt_recyclesInto rt_item of None \<Rightarrow> [] | Some d \<Rightarrow> d)
      in if outputs = [] then None else Some outputs)"
    by (simp add: transform_item_def Let_def record_eval)
  show ?thesis
  proof (cases existing)
    case None
    with base show ?thesis by simp
  next
    case (Some e)
    have "recycleOutputs (transform_item rt_item m (Some e))
        = recycleOutputs (transform_item rt_item m None)"
    proof (cases "dict_nonempty e")
      case True
      consider (absent) "ex_recycleValuePercent e = None"
        | (null) "ex_recycleValuePercent e = Some None"
        | (number) p where "ex_recycleValuePercent e = Some (Some p)"
        by (cases "ex_recycleValuePercent e") auto
      then show ?thesis
        by cases (simp_all add: transform_item_def Let_def record_eval True split del: if_split)
    next
      case False
      then show ?thesis
        by (simp add: transform_item_def Let_def record_eval split del: if_split)
    qed
    with base Some show ?thesis by simp
  qed
qed

text \<open>
  C6. The recycleOutputs of the output is null when recyclesInto is missing, empty or
  without a strictly positive count, and is never an empty mapping. When some count is
  strictly positive it is a mapping whose keys are the display names of the entries with a
  positive count; every count in it is positive and comes from such an entry, and an
  entry with a positive count whose display name is not shared with a different positive
  count is mapped to its own count.
\<close>

theorem transform_item_recycleOutputs:
  "let recs = (case rt_recyclesInto rt_item of None \<Rightarrow> [] | Some d \<Rightarrow> d);
       out = recycleOutputs (transform_item rt_item m existing)
   in if \<exists>(i, c) \<in> set recs. 0 < c
      then \<exists>outs. out = Some outs \<and> outs \<noteq> [] \<and> distinct (map fst outs)
             \<and> fst ` set outs = {id_to_display_name i m | i c. (i, c) \<in> set recs \<and> 0 < c}
             \<and> (\<forall>(n, c) \<in> set outs. 0 < c \<and> (\<exists>i. (i, c) \<in> set recs \<and> id_to_display_name i m = n))
             \<and> (\<forall>(i, c) \<in> set recs. 0 < c \<longrightarrow>
                   (\<forall>(i', c') \<in> set recs.
                       0 < c' \<and> id_to_display_name i' m = id_to_display_name i m \<longrightarrow> c' = c) \<longrightarrow>
                   map_of outs (id_to_display_name i m) = Some c)
      else out = None"
proof -
  define recs where "recs = (case rt_recyclesInto rt_item of None \<Rightarrow> [] | Some d \<Rightarrow> d)"
  define outs where "outs = foldl (recycle_step m) [] recs"
  have out: "recycleOutputs (transform_item rt_item m existing)
      = (if outs = [] then None else Some outs)"
    by (simp add: recycleOutputs_transform_item outs_def recs_def Let_def)
  have keys: "fst ` set outs = {id_to_display_name i m | i c. (i, c) \<in> set recs \<and> 0 < c}"
    using recycle_fold_keys [of m "[]" recs] by (simp add: outs_def)
  have dist: "distinct (map fst outs)"
    using recycle_fold_distinct [of "[]" m recs] by (simp add: outs_def)
  have mem: "0 < c \<and> (\<exists>i. (i, c) \<in> set recs \<and> id_to_display_name i m = n)"
    if "(n, c) \<in> set outs" for n c
    using recycle_fold_member [of n c m "[]" recs] that by (auto simp: outs_def)
  have look: "map_of outs (id_to_display_name i m) = Some c"
    if "(i, c) \<in> set recs" "0 < c"
      "\<forall>(i', c') \<in> set recs. 0 < c' \<and> id_to_display_name i' m = id_to_display_name i m \<longrightarrow> c' = c"
    for i c
    using recycle_fold_lookup [OF that, of "[]"] by (simp add: outs_def)
  show ?thesis
  proof (cases "\<exists>(i, c) \<in> set recs. 0 < c")
    case True
    then have "fst ` set outs \<noteq> {}" unfolding keys by auto
    then have ne: "outs \<noteq> []" by auto
    show ?thesis
      unfolding Let_def recs_def [symmetric] out
      using True ne dist keys mem look by (auto simp del: split_paired_All)
  next
    case False
    then have "fst ` set outs = {}" unfolding keys by auto
    then have "outs = []" by auto
    with False show ?thesis
      unfolding Let_def recs_def [symmetric] out by simp
  qed
qed

lemmas title_eval = id_to_display_name_def title_def replace_char_def upper_char_def
  is_cased_def lower_char_def char_of_def bit_Suc_0_iff

theorem transform_item_recycleOutputs_witness:
  "recycleOutputs (transform_item gold_watch [(''wires'', ''Copper Wire'')] None)
     = Some [(''Scrap Metal'', 2), (''Copper Wire'', 1)]
   \<and> recycleOutputs (transform_item rusty_gear [] None) = None"
proof -
  have e1: "recycleOutputs (transform_item gold_watch [(''wires'', ''Copper Wire'')] None)
     = Some [(''Scrap Metal'', 2), (''Copper Wire'', 1)]"
    by (simp add: recycleOutputs_transform_item gold_watch_def recycle_step_pair title_eval)
  have e2: "recycleOutputs (transform_item rusty_gear [] None) = None"
    by (simp add: recycleOutputs_transform_item rusty_gear_def recycle_step_pair)
  from transform_item_recycleOutputs [of gold_watch "[(''wires'', ''Copper Wire'')]" None]
    transform_item_recycleOutputs [of rusty_gear "[]" None] e1 e2
  show ?thesis by simp
qed

section \<open>The orchestrator: order of the output\<close>

lemma name_transform_item: "name (transform_item rt_item m existing) = english (rt_name rt_item)"
proof -
  have base: "name (transform_item rt_item m None) = english (rt_name rt_item)"
    by (simp add: transform_item_def Let_def record_eval)
  show ?thesis
  proof (cases existing)
    case None
    with base show ?thesis by simp
  next
    case (Some e)
    with base show ?thesis
      using transform_item_existing_irrelevant [of rt_item m e] by simp
  qed
qed

lemma merge_step_names:
  "map name (fst (merge_step m idx (acc, st) (item_id, r)))
     = map name acc @ (if english (rt_name r) = [] then [] else [english (rt_name r)])"
  by (simp add: merge_step_def Let_def name_transform_item)

lemma merge_fold_names:
  "map name (fst (foldl (merge_step m idx) state rt_items))
     = map name (fst state)
       @ filter (\<lambda>n. n \<noteq> []) (map (\<lambda>(item_id, r). english (rt_name r)) rt_items)"
proof (induction rt_items arbitrary: state)
  case Nil
  show ?case by simp
next
  case (Cons x xs)
  obtain item_id r where x: "x = (item_id, r)" by (cases x)
  obtain acc st where state: "state = (acc, st)" by (cases state)
  show ?case
    by (simp add: Cons x state merge_step_names)
qed

lemma map_sort_key: "map f (sort_key (\<lambda>x. g (f x)) xs) = sort_key g (map f xs)"
proof -
  have ins: "map f (insort_key (\<lambda>x. g (f x)) a ys) = insort_key g (f a) (map f ys)" for a ys
    by (induction ys) simp_all
  show ?thesis by (induction xs) (simp_all add: ins)
qed

lemma main_names:
  "map name (fst (main rt_items existing_items))
     = sort_key lower (filter (\<lambda>n. n \<noteq> []) (map (\<lambda>(item_id, r). english (rt_name r)) rt_items))"
  by (simp add: main_def Let_def split_beta map_sort_key merge_fold_names)

lemma main_sorted: "sorted (map (\<lambda>x. lower (name x)) (fst (main rt_items existing_items)))"
  by (simp add: main_def Let_def split_beta)

text \<open>
  C8. The catalog the orchestrator returns is in ascending order of the lower-cased names:
  at any two positions i < j the lower-cased name at i is at most the one at j. When
  the names of the raw records are "Zed Core", "Apple Seed" and "mango", in this order,
  the names of the output are "Apple Seed", "mango" and "Zed Core".
\<close>

theorem main_sorted_by_lower_name:
  "(\<forall>i j. i < j \<and> j < length (fst (main rt_items existing_items)) \<longrightarrow>
       lower (name (fst (main rt_items existing_items) ! i))
         \<le> lower (name (fst (main rt_items existing_items) ! j)))
   \<and> (map (\<lambda>(item_id, r). english (rt_name r)) rt_items = [''Zed Core'', ''Apple Seed'', ''mango'']
        \<longrightarrow> map name (fst (main rt_items existing_items)) = [''Apple Seed'', ''mango'', ''Zed Core''])"
proof (intro conjI allI impI)
  fix i j
  assume ij: "i < j \<and> j < length (fst (main rt_items existing_items))"
  let ?keys = "map (\<lambda>x. lower (name x)) (fst (main rt_items existing_items))"
  have "sorted ?keys" by (rule main_sorted)
  moreover from ij have "i \<le> j" "j < length ?keys" by simp_all
  ultimately have "?keys ! i \<le> ?keys ! j" by (rule sorted_nth_mono)
  with ij show "lower (name (fst (main rt_items existing_items) ! i))
         \<le> lower (name (fst (main rt_items existing_items) ! j))"
    by simp
next
  assume names: "map (\<lambda>(item_id, r). english (rt_name r)) rt_items
      = [''Zed Core'', ''Apple Seed'', ''mango'']"
  have l1: "lower ''Zed Core'' = ''zed core''" by (simp add: lower_def lower_char_def char_of_def bit_Suc_0_iff)
  have l2: "lower ''Apple Seed'' = ''apple seed''" by (simp add: lower_def lower_char_def char_of_def bit_Suc_0_iff)
  have l3: "lower ''mango'' = ''mango''" by (simp add: lower_def lower_char_def char_of_def bit_Suc_0_iff)
  show "map name (fst (main rt_items existing_items)) = [''Apple Seed'', ''mango'', ''Zed Core'']"
    by (simp add: main_names names l1 l2 l3)
qed

theorem main_sorted_by_lower_name_witness:
  "map name (fst (main [(''zed_core'', named_raw ''Zed Core''),
                        (''apple_seed'', named_raw ''Apple Seed''),
                        (''mango'', named_raw ''mango'')] [curated_watch]))
     = [''Apple Seed'', ''mango'', ''Zed Core'']"
proof -
  have names: "map (\<lambda>(item_id, r). english (rt_name r))
          [(''zed_core'', named_raw ''Zed Core''), (''apple_seed'', named_raw ''Apple Seed''),
           (''mango'', named_raw ''mango'')]
        = [''Zed Core'', ''Apple Seed'', ''mango'']"
    by (simp add: named_raw_def english_def)
  show ?thesis
    by (rule main_sorted_by_lower_name [THEN conjunct2, THEN mp, OF names])
qed

end
